theory Spec2Isabelle
  imports Main "HOL-Library.Word"
begin

unbundle bit_operations_syntax

section \<open>Data model of \<open>IcmpMessage\<close>\<close>

type_synonym u8 = "8 word"
type_synonym u16 = "16 word"
type_synonym u32 = "32 word"

text \<open>
  The private members of class \<open>IcmpMessage\<close> (include/icmp_message.h), in declaration
  order. The member \<open>type_\<close> of the source is the field \<open>m_type\<close> here, and likewise
  for the others (a name may not end in an underscore). The payload is a
  \<open>std::vector<uint8_t>\<close>, modelled as a list of bytes.
\<close>

record icmp_message =
  m_type :: u8
  m_code :: u8
  m_checksum :: u16
  m_identifier :: u16
  m_sequence_number :: u16
  m_data :: "u8 list"

text \<open>The default constructor: an Echo Request with every other field zero or empty.\<close>

definition IcmpMessage_default :: icmp_message where
  "IcmpMessage_default =
     \<lparr>m_type = 8, m_code = 0, m_checksum = 0, m_identifier = 0, m_sequence_number = 0, m_data = []\<rparr>"

text \<open>The parameterized constructor; the checksum member is initialised to 0.\<close>

definition IcmpMessage :: "u8 \<Rightarrow> u8 \<Rightarrow> u16 \<Rightarrow> u16 \<Rightarrow> u8 list \<Rightarrow> icmp_message" where
  "IcmpMessage ty co ident seq payload =
     \<lparr>m_type = ty, m_code = co, m_checksum = 0, m_identifier = ident,
      m_sequence_number = seq, m_data = payload\<rparr>"

text \<open>The public accessors declared inline in the header. There are five of them;
  \<open>identifier()\<close> is \<open>identifier_acc\<close> here, the plain name being reserved.\<close>

definition type :: "icmp_message \<Rightarrow> u8" where
  "type m = m_type m"

definition code :: "icmp_message \<Rightarrow> u8" where
  "code m = m_code m"

definition identifier_acc :: "icmp_message \<Rightarrow> u16" where
  "identifier_acc m = m_identifier m"

definition sequence_number :: "icmp_message \<Rightarrow> u16" where
  "sequence_number m = m_sequence_number m"

definition data :: "icmp_message \<Rightarrow> u8 list" where
  "data m = m_data m"

text \<open>
  What a caller can read from a message through the public accessors: the results of
  the five accessors above, in the order of their declaration.
\<close>

datatype field_value = U8 u8 | U16 u16 | Bytes "u8 list"

definition accessors :: "(icmp_message \<Rightarrow> field_value) list" where
  "accessors =
     [\<lambda>m. U8 (type m), \<lambda>m. U8 (code m), \<lambda>m. U16 (identifier_acc m),
      \<lambda>m. U16 (sequence_number m), \<lambda>m. Bytes (data m)]"

section \<open>\<open>ComputeChecksum\<close>\<close>

text \<open>
  \<open>uint16_t word = (buffer[i] << 8) | buffer[i + 1]\<close>: both bytes are promoted, the
  result fits in 16 bits.
\<close>

definition be_word :: "u8 \<Rightarrow> u8 \<Rightarrow> u16" where
  "be_word hi lo = push_bit 8 (ucast hi) OR ucast lo"

text \<open>
  The first loop, \<open>for (size_t i = 0; i + 1 < buffer.size(); i += 2) sum += word\<close>,
  with the 32-bit accumulator \<open>sum\<close>, here \<open>acc\<close> (addition wraps modulo \<open>2 ^ 32\<close>).
\<close>

function sum_loop :: "u8 list \<Rightarrow> nat \<Rightarrow> u32 \<Rightarrow> u32" where
  "sum_loop buffer i acc =
     (if i + 1 < length buffer
      then sum_loop buffer (i + 2) (acc + ucast (be_word (buffer ! i) (buffer ! (i + 1))))
      else acc)"
  by pat_completeness auto
termination
  by (relation "measure (\<lambda>(buffer, i, acc). length buffer - i)") auto

declare sum_loop.simps [simp del]

text \<open>
  \<open>if (buffer.size() % 2 == 1) { uint16_t last = buffer.back() << 8; sum += last; }\<close>
\<close>

definition add_odd_byte :: "u8 list \<Rightarrow> u32 \<Rightarrow> u32" where
  "add_odd_byte buffer acc =
     (if length buffer mod 2 = 1
      then acc + ucast (push_bit 8 (ucast (last buffer) :: u16))
      else acc)"

text \<open>The body of the carry-fold loop: \<open>sum = (sum & 0xFFFF) + (sum >> 16)\<close>.\<close>

definition fold_step :: "u32 \<Rightarrow> u32" where
  "fold_step acc = (acc AND 0xFFFF) + drop_bit 16 acc"

lemma fold_step_unat: "unat (fold_step s) = unat s mod 65536 + unat s div 65536"
proof -
  have a: "unat (s AND 0xFFFF) = unat s mod 65536"
  proof -
    have "s AND 0xFFFF = take_bit 16 s"
      by (simp add: take_bit_eq_mask mask_numeral)
    then show ?thesis
      by (simp add: take_bit_eq_mod unat_mod)
  qed
  have b: "unat (drop_bit 16 s) = unat s div 65536"
    by (simp add: drop_bit_eq_div unat_div)
  have "unat s < 2 ^ 32"
    using unsigned_less [of s, where 'a = nat] by simp
  then have "unat s div 65536 < 65536"
    by simp
  moreover have "unat s mod 65536 < 65536"
    by simp
  ultimately have "unat (s AND 0xFFFF) + unat (drop_bit 16 s) < 2 ^ LENGTH(32)"
    using a b by simp
  then have "unat ((s AND 0xFFFF) + drop_bit 16 s) = unat (s AND 0xFFFF) + unat (drop_bit 16 s)"
    by (rule unat_add_lem [THEN iffD1])
  then show ?thesis
    by (simp add: fold_step_def a b)
qed

lemma drop_bit_16_unat: "drop_bit 16 (s :: u32) \<noteq> 0 \<longleftrightarrow> 65536 \<le> unat s"
proof -
  have "unat (drop_bit 16 s) = unat s div 65536"
    by (simp add: drop_bit_eq_div unat_div)
  moreover have "drop_bit 16 s \<noteq> 0 \<longleftrightarrow> unat (drop_bit 16 s) \<noteq> 0"
    by (simp add: unat_eq_0)
  ultimately show ?thesis
    by (auto simp: div_eq_0_iff)
qed

lemma fold_step_decreases:
  "drop_bit 16 (s :: u32) \<noteq> 0 \<Longrightarrow> unat (fold_step s) < unat s"
proof -
  assume "drop_bit 16 s \<noteq> 0"
  then have "65536 \<le> unat s"
    by (simp add: drop_bit_16_unat)
  then have "0 < unat s div 65536"
    by (simp add: div_greater_zero_iff)
  moreover have "unat s = 65536 * (unat s div 65536) + unat s mod 65536"
    by simp
  ultimately have "unat s mod 65536 + unat s div 65536 < unat s"
    by linarith
  then show ?thesis
    by (simp add: fold_step_unat)
qed

text \<open>The carry-fold loop: \<open>while (sum >> 16) sum = (sum & 0xFFFF) + (sum >> 16)\<close>.\<close>

function fold_carry :: "u32 \<Rightarrow> u32" where
  "fold_carry acc = (if drop_bit 16 acc \<noteq> 0 then fold_carry (fold_step acc) else acc)"
  by pat_completeness auto
termination
  by (relation "measure unat") (auto simp: fold_step_decreases)

declare fold_carry.simps [simp del]

text \<open>The same loop, counting how often its body runs.\<close>

function fold_carry_iterations :: "u32 \<Rightarrow> nat" where
  "fold_carry_iterations acc =
     (if drop_bit 16 acc \<noteq> 0 then Suc (fold_carry_iterations (fold_step acc)) else 0)"
  by pat_completeness auto
termination
  by (relation "measure unat") (auto simp: fold_step_decreases)

declare fold_carry_iterations.simps [simp del]

text \<open>The accumulator when the fold loop is reached.\<close>

definition word_sum :: "u8 list \<Rightarrow> u32" where
  "word_sum buffer = add_odd_byte buffer (sum_loop buffer 0 0)"

text \<open>\<open>return static_cast<uint16_t>(~sum)\<close>\<close>

definition ComputeChecksum :: "u8 list \<Rightarrow> u16" where
  "ComputeChecksum buffer = ucast (NOT (fold_carry (word_sum buffer)))"

section \<open>\<open>Encode\<close>\<close>

text \<open>
  The buffer is built by eight \<open>push_back\<close>s and one \<open>insert\<close> of the payload at the end;
  the checksum of that buffer is then written over bytes 2 and 3. Both indices are inside
  the buffer, which has at least eight bytes.
\<close>

definition Encode :: "icmp_message \<Rightarrow> u8 list" where
  "Encode m =
     (let buffer =
            [m_type m, m_code m, 0, 0,
             ucast (drop_bit 8 (m_identifier m)), ucast (m_identifier m AND 0xFF),
             ucast (drop_bit 8 (m_sequence_number m)), ucast (m_sequence_number m AND 0xFF)]
            @ m_data m;
          checksum = ComputeChecksum buffer
      in buffer[2 := ucast (drop_bit 8 checksum AND 0xFF), 3 := ucast (checksum AND 0xFF)])"

section \<open>\<open>Decode\<close>\<close>

datatype decode_error = MalformedMessage

text \<open>
  Modelled from the spec: the body of \<open>IcmpMessage::Decode\<close> is missing from the sources
  (the header only declares \<open>bool Decode(const std::vector<uint8_t>& buffer)\<close>, and the
  tests call it on \<open>{8, 0, 0, 0}\<close> and \<open>{99}\<close>). The definition follows section 4.3 of the
  specification step by step: a buffer shorter than 4 bytes is rejected; a type byte other
  than 0 and 8 is rejected; the code is byte 1 and the checksum bytes 2 and 3, big-endian;
  identifier and sequence number are bytes 4-5 and 6-7 when the buffer has at least 8
  bytes and 0 otherwise; the payload is what follows the first 8 bytes. The declared
  function returns \<open>bool\<close> and fills the object it is called on; here the result is the
  filled message (\<open>true\<close>) or the single failure kind (\<open>false\<close>). The two rejections
  cannot be told apart, so their order is not observable.
\<close>

definition Decode :: "u8 list \<Rightarrow> decode_error + icmp_message" where
  "Decode buffer =
     (if length buffer < 4 then Inl MalformedMessage
      else if buffer ! 0 \<noteq> 0 \<and> buffer ! 0 \<noteq> 8 then Inl MalformedMessage
      else Inr \<lparr>m_type = buffer ! 0,
                m_code = buffer ! 1,
                m_checksum = be_word (buffer ! 2) (buffer ! 3),
                m_identifier = (if 8 \<le> length buffer then be_word (buffer ! 4) (buffer ! 5) else 0),
                m_sequence_number =
                  (if 8 \<le> length buffer then be_word (buffer ! 6) (buffer ! 7) else 0),
                m_data = drop 8 buffer\<rparr>)"

section \<open>The Internet checksum as the specification words it\<close>

text \<open>
  Section 4.1 of the specification, over unbounded naturals: the buffer as big-endian
  16-bit words, a trailing single byte being the high byte of a last word; their sum; the
  carries out of the low 16 bits folded back until none remains; the one's complement of
  the 16-bit result.
\<close>

fun rfc1071_words :: "u8 list \<Rightarrow> nat list" where
  "rfc1071_words [] = []"
| "rfc1071_words [b] = [unat b * 256]"
| "rfc1071_words (hi # lo # rest) = (unat hi * 256 + unat lo) # rfc1071_words rest"

function rfc1071_fold :: "nat \<Rightarrow> nat" where
  "rfc1071_fold n = (if 65536 \<le> n then rfc1071_fold (n mod 65536 + n div 65536) else n)"
  by pat_completeness auto
termination
proof (relation "measure id")
  show "wf (measure id)"
    by simp
next
  fix n :: nat
  assume "65536 \<le> n"
  then have "0 < n div 65536"
    by (simp add: div_greater_zero_iff)
  moreover have "n = 65536 * (n div 65536) + n mod 65536"
    by simp
  ultimately have "n mod 65536 + n div 65536 < n"
    by linarith
  then show "(n mod 65536 + n div 65536, n) \<in> measure id"
    by simp
qed

declare rfc1071_fold.simps [simp del]

definition rfc1071_checksum :: "u8 list \<Rightarrow> nat" where
  "rfc1071_checksum buffer = 65535 - rfc1071_fold (sum_list (rfc1071_words buffer))"

section \<open>The summation loop as a recursion over the bytes\<close>

text \<open>
  \<open>pair_sum\<close> adds the complete byte pairs of a buffer, \<open>wsum\<close> also the padded last
  byte of a buffer of odd length. They are what the index loop and the odd-length branch
  of \<open>ComputeChecksum\<close> compute, which the lemmas below establish.
\<close>

fun wsum :: "u8 list \<Rightarrow> u32" where
  "wsum [] = 0"
| "wsum [b] = ucast (push_bit 8 (ucast b :: u16))"
| "wsum (hi # lo # rest) = ucast (be_word hi lo) + wsum rest"

fun pair_sum :: "u8 list \<Rightarrow> u32" where
  "pair_sum (hi # lo # rest) = ucast (be_word hi lo) + pair_sum rest"
| "pair_sum _ = 0"

lemma sum_loop_pair_sum: "sum_loop buffer i acc = acc + pair_sum (drop i buffer)"
proof (induction buffer i acc rule: sum_loop.induct)
  case (1 buffer i acc)
  show ?case
  proof (cases "i + 1 < length buffer")
    case True
    then have "drop i buffer = buffer ! i # buffer ! (i + 1) # drop (i + 2) buffer"
      by (simp add: Cons_nth_drop_Suc)
    with True 1 show ?thesis
      by (simp add: sum_loop.simps [of buffer i acc])
  next
    case False
    then have "length (drop i buffer) \<le> 1"
      by simp
    then have "pair_sum (drop i buffer) = 0"
      by (cases "drop i buffer" rule: pair_sum.cases) simp_all
    with False show ?thesis
      by (simp add: sum_loop.simps [of buffer i acc])
  qed
qed

lemma add_odd_byte_pair_sum: "add_odd_byte buffer (acc + pair_sum buffer) = acc + wsum buffer"
  by (induction buffer arbitrary: acc rule: wsum.induct)
     (auto simp: add_odd_byte_def add.assoc)

lemma word_sum_wsum: "word_sum buffer = wsum buffer"
  using add_odd_byte_pair_sum [of buffer 0] by (simp add: word_sum_def sum_loop_pair_sum)

section \<open>Bytes and 16-bit words\<close>

lemma xFF_mask: "(0xFF :: u16) = mask 8"
  by (simp add: mask_eq_exp_minus_1)

lemma be_word_split: "be_word (ucast (drop_bit 8 w)) (ucast (w AND 0xFF)) = (w :: u16)"
  unfolding be_word_def xFF_mask
  by (rule bit_word_eqI) (auto simp: bit_simps)

lemma be_word_split2: "be_word (ucast (drop_bit 8 w AND 0xFF)) (ucast (w AND 0xFF)) = (w :: u16)"
  unfolding be_word_def xFF_mask
  by (rule bit_word_eqI) (auto simp: bit_simps)

lemma be_word_zero: "be_word 0 0 = 0"
  by (simp add: be_word_def)

lemma be_word_pad: "be_word b 0 = push_bit 8 (ucast b)"
  by (simp add: be_word_def)

lemma unat_u8_less: "unat (b :: u8) < 256"
  using unsigned_less [of b, where 'a = nat] by simp

lemma be_word_plus: "be_word hi lo = push_bit 8 (ucast hi) + ucast lo"
proof -
  have "push_bit 8 (ucast hi :: u16) AND ucast lo = 0"
    by (rule bit_word_eqI) (auto simp: bit_simps dest: bit_imp_le_length)
  then show ?thesis
    by (simp add: be_word_def disjunctive_add_eq_or)
qed

lemma be_word_of_nat: "be_word hi lo = of_nat (unat hi * 256 + unat lo)"
  by (simp add: be_word_plus push_bit_eq_mult)

lemma unat_be_word: "unat (be_word hi lo) = unat hi * 256 + unat lo"
proof -
  have "unat hi * 256 + unat lo < 65536"
    using unat_u8_less [of hi] unat_u8_less [of lo] by linarith
  moreover have "unat (be_word hi lo) = (unat hi * 256 + unat lo) mod 2 ^ LENGTH(16)"
    by (simp only: be_word_of_nat unat_of_nat)
  ultimately show ?thesis
    by simp
qed

lemma ucast_be_word_of_nat: "(ucast (be_word hi lo) :: u32) = of_nat (unat hi * 256 + unat lo)"
  using unat_be_word [of hi lo] by (metis of_nat_unat)

lemma ucast_pad_of_nat:
  "(ucast (push_bit 8 (ucast (b :: u8)) :: u16) :: u32) = of_nat (unat b * 256)"
  using ucast_be_word_of_nat [of b 0] by (simp add: be_word_def)

section \<open>The carry-fold loop\<close>

lemma unat_u32_less: "unat (s :: u32) < 4294967296"
  using unsigned_less [of s, where 'a = nat] by simp

lemma unat_drop_bit_16: "unat (drop_bit 16 (s :: u32)) = unat s div 65536"
  by (simp add: drop_bit_eq_div unat_div)

lemma end_around_less:
  "l < 65536 \<Longrightarrow> h < 65536 \<Longrightarrow>
     (if l + h < 65536 then l + h else l + h - 65535) < (65536 :: nat)"
proof -
  assume "l < 65536" and "h < 65536"
  then have "l + h - 65535 < 65536"
    by linarith
  then show ?thesis
    by simp
qed

lemma div_mod_carry:
  assumes "65536 \<le> t" and "t \<le> (131070 :: nat)"
  shows "t div 65536 = 1" and "t mod 65536 = t - 65536"
proof -
  show "t div 65536 = 1"
    using assms by (intro div_nat_eqI) simp_all
  have "t mod 65536 = (t - 65536) mod 65536"
    using assms(1) by (rule le_mod_geq)
  also have "\<dots> = t - 65536"
    using assms(2) by (intro mod_less) simp
  finally show "t mod 65536 = t - 65536" .
qed

lemma rfc1071_fold_small: "n < 65536 \<Longrightarrow> rfc1071_fold n = n"
  by (simp add: rfc1071_fold.simps)

lemma rfc1071_fold_closed:
  assumes "n < 4294967296"
  shows "rfc1071_fold n =
           (if n mod 65536 + n div 65536 < 65536 then n mod 65536 + n div 65536
            else n mod 65536 + n div 65536 - 65535)"
proof (cases "n < 65536")
  case True
  then show ?thesis
    by (simp add: rfc1071_fold_small)
next
  case False
  define t where "t = n mod 65536 + n div 65536"
  have t: "t \<le> 131070"
    using assms unfolding t_def by simp
  have step: "rfc1071_fold n = rfc1071_fold t"
    using False by (simp add: rfc1071_fold.simps [of n] t_def)
  show ?thesis
  proof (cases "t < 65536")
    case True
    then show ?thesis
      using step by (simp add: rfc1071_fold_small t_def)
  next
    case False
    then have "t mod 65536 + t div 65536 = t - 65535"
      using t div_mod_carry [of t] by simp
    moreover have "t - 65535 < 65536"
      using t by simp
    ultimately have "rfc1071_fold t = t - 65535"
      using False by (simp add: rfc1071_fold.simps [of t] rfc1071_fold_small)
    then show ?thesis
      using step False by (simp add: t_def)
  qed
qed

lemma unat_fold_carry: "unat (fold_carry s) = rfc1071_fold (unat s)"
proof (induction s rule: fold_carry.induct)
  case (1 acc)
  show ?case
  proof (cases "drop_bit 16 acc \<noteq> 0")
    case True
    then have "65536 \<le> unat acc"
      by (simp add: drop_bit_16_unat)
    then have "rfc1071_fold (unat acc) = rfc1071_fold (unat (fold_step acc))"
      by (simp add: rfc1071_fold.simps [of "unat acc"] fold_step_unat)
    with True 1 show ?thesis
      by (simp add: fold_carry.simps [of acc])
  next
    case False
    then have "unat acc < 65536"
      using drop_bit_16_unat [of acc] by simp
    with False show ?thesis
      by (simp add: fold_carry.simps [of acc] rfc1071_fold_small)
  qed
qed

lemma rfc1071_fold_less:
  assumes "n < 4294967296"
  shows "rfc1071_fold n < 65536"
proof -
  have "n div 65536 < 65536"
    using assms by simp
  moreover have "n mod 65536 < 65536"
    by simp
  ultimately have "(if n mod 65536 + n div 65536 < 65536 then n mod 65536 + n div 65536
                    else n mod 65536 + n div 65536 - 65535) < 65536"
    by (intro end_around_less)
  then show ?thesis
    using assms by (simp only: rfc1071_fold_closed)
qed

lemma unat_fold_carry_less: "unat (fold_carry s) < 65536"
  by (simp add: unat_fold_carry rfc1071_fold_less unat_u32_less)

lemma fold_carry_exit: "drop_bit 16 (fold_carry s) = 0"
  using drop_bit_16_unat [of "fold_carry s"] unat_fold_carry_less [of s] by simp

lemma fold_step_le: "unat (fold_step s) \<le> 131070"
  using unat_u32_less [of s] by (simp add: fold_step_unat)

lemma fold_step_twice_less: "unat (fold_step (fold_step s)) < 65536"
proof -
  have "unat (fold_step (fold_step s)) = unat (fold_step s) mod 65536 + unat (fold_step s) div 65536"
    by (rule fold_step_unat)
  also have "\<dots> < 65536"
  proof (cases "unat (fold_step s) < 65536")
    case True
    then show ?thesis by simp
  next
    case False
    then show ?thesis
      using fold_step_le [of s] div_mod_carry [of "unat (fold_step s)"] by simp
  qed
  finally show ?thesis .
qed

lemma fold_carry_iterations_le: "fold_carry_iterations s \<le> 2"
proof -
  have "drop_bit 16 (fold_step (fold_step s)) = 0"
    using drop_bit_16_unat [of "fold_step (fold_step s)"] fold_step_twice_less [of s] by simp
  then show ?thesis
    by (simp add: fold_carry_iterations.simps [of s] fold_carry_iterations.simps [of "fold_step s"]
        fold_carry_iterations.simps [of "fold_step (fold_step s)"])
qed

lemma fold_carry_funpow: "fold_carry s = (fold_step ^^ fold_carry_iterations s) s"
proof (induction s rule: fold_carry.induct)
  case (1 acc)
  then show ?case
    by (simp add: fold_carry.simps [of acc] fold_carry_iterations.simps [of acc] funpow_swap1)
qed

lemma fold_step_high_le:
  assumes "drop_bit 16 (s :: u32) \<noteq> 0"
  shows "drop_bit 16 (fold_step s) \<le> drop_bit 16 s"
proof -
  have "65536 \<le> unat s"
    using assms by (simp add: drop_bit_16_unat)
  then have "1 \<le> unat s div 65536"
    by simp
  moreover have "unat (fold_step s) div 65536 \<le> 1"
    using fold_step_le [of s] by simp
  ultimately show ?thesis
    by (simp add: word_le_nat_alt unat_drop_bit_16)
qed

section \<open>The code's checksum against the specification's\<close>

lemma wsum_of_nat: "wsum buffer = of_nat (sum_list (rfc1071_words buffer))"
proof (induction buffer rule: wsum.induct)
  case 1
  show ?case by simp
next
  case (2 b)
  show ?case
    by (simp only: wsum.simps rfc1071_words.simps sum_list.Nil sum_list.Cons ucast_pad_of_nat
        add_0_right)
next
  case (3 hi lo rest)
  then show ?case
    by (simp only: wsum.simps rfc1071_words.simps sum_list.Cons ucast_be_word_of_nat of_nat_add)
qed

lemma sum_list_rfc1071_words_le:
  "sum_list (rfc1071_words buffer) \<le> 65535 * ((length buffer + 1) div 2)"
proof (induction buffer rule: rfc1071_words.induct)
  case 1
  show ?case by simp
next
  case (2 b)
  show ?case
    using unat_u8_less [of b] by simp
next
  case (3 hi lo rest)
  have "unat hi * 256 + unat lo \<le> 65535"
    using unat_u8_less [of hi] unat_u8_less [of lo] by linarith
  moreover have "(length (hi # lo # rest) + 1) div 2 = Suc ((length rest + 1) div 2)"
    by simp
  ultimately show ?case
    using 3 by (simp only: rfc1071_words.simps sum_list.Cons mult_Suc_right)
qed

lemma sum_list_rfc1071_words_less:
  assumes "length buffer \<le> 131074"
  shows "sum_list (rfc1071_words buffer) < 4294967296"
proof -
  have "(length buffer + 1) div 2 \<le> 65537"
    using assms by simp
  then have "65535 * ((length buffer + 1) div 2) \<le> 65535 * 65537"
    by (rule mult_le_mono2)
  with sum_list_rfc1071_words_le [of buffer] show ?thesis
    by simp
qed

lemma unat_wsum:
  "sum_list (rfc1071_words buffer) < 4294967296 \<Longrightarrow>
     unat (wsum buffer) = sum_list (rfc1071_words buffer)"
  by (simp only: wsum_of_nat unat_of_nat) simp

lemma unat_complement:
  assumes "unat (x :: u32) < 65536"
  shows "unat (ucast (NOT x) :: u16) = 65535 - unat x"
proof -
  have "(ucast (NOT x) :: u16) = NOT (ucast x)"
    by (rule bit_word_eqI) (auto simp: bit_simps)
  also have "\<dots> = 0xFFFF - ucast x"
    by (simp add: not_eq_complement)
  finally have "unat (ucast (NOT x) :: u16) = unat (0xFFFF - (ucast x :: u16))"
    by simp
  also have "\<dots> = unat (0xFFFF :: u16) - unat (ucast x :: u16)"
    by (rule unat_sub) (simp add: word_le_nat_alt, use unsigned_less [of "ucast x :: u16", where 'a = nat] in simp)
  also have "unat (ucast x :: u16) = unat x"
    using assms by (simp add: unsigned_ucast_eq take_bit_nat_eq_self)
  finally show ?thesis
    by simp
qed

lemma checksum_refines:
  assumes "sum_list (rfc1071_words buffer) < 4294967296"
  shows "unat (ComputeChecksum buffer) = rfc1071_checksum buffer"
proof -
  have "unat (ComputeChecksum buffer) = 65535 - unat (fold_carry (wsum buffer))"
    by (simp add: ComputeChecksum_def word_sum_wsum unat_complement unat_fold_carry_less)
  then show ?thesis
    using assms by (simp add: unat_fold_carry unat_wsum rfc1071_checksum_def)
qed

lemma wsum_replicate_FF:
  "wsum (replicate (2 * n) 0xFF @ t) = of_nat n * 0xFFFF + wsum t"
proof (induction n)
  case 0
  show ?case by simp
next
  case (Suc n)
  have "ucast (be_word 0xFF 0xFF) = (0xFFFF :: u32)"
    by (simp add: be_word_def)
  with Suc show ?case
    by (simp add: distrib_right)
qed

lemma rfc1071_words_replicate_FF:
  "rfc1071_words (replicate (2 * n) 0xFF @ t) = replicate n 65535 @ rfc1071_words t"
  by (induction n) simp_all

lemma checksum_of_zero_sum: "(ucast (NOT (fold_carry 0)) :: u16) = 0xFFFF"
proof -
  have "fold_carry 0 = 0"
    by (simp add: fold_carry.simps)
  moreover have "unat (ucast (NOT (0 :: u32)) :: u16) = 65535 - unat (0 :: u32)"
    by (rule unat_complement) simp
  ultimately have "unat (ucast (NOT (fold_carry 0)) :: u16) = 65535"
    by (simp only: unat_0 diff_zero)
  then show ?thesis
    by (simp add: word_unat_eq_iff)
qed

section \<open>The verification identity\<close>





section \<open>The layout of an encoded buffer\<close>

lemma Encode_layout:
  "Encode m =
     [m_type m, m_code m,
      ucast (drop_bit 8 (ComputeChecksum
        ([m_type m, m_code m, 0, 0,
          ucast (drop_bit 8 (m_identifier m)), ucast (m_identifier m AND 0xFF),
          ucast (drop_bit 8 (m_sequence_number m)), ucast (m_sequence_number m AND 0xFF)]
         @ m_data m)) AND 0xFF),
      ucast (ComputeChecksum
        ([m_type m, m_code m, 0, 0,
          ucast (drop_bit 8 (m_identifier m)), ucast (m_identifier m AND 0xFF),
          ucast (drop_bit 8 (m_sequence_number m)), ucast (m_sequence_number m AND 0xFF)]
         @ m_data m) AND 0xFF),
      ucast (drop_bit 8 (m_identifier m)), ucast (m_identifier m AND 0xFF),
      ucast (drop_bit 8 (m_sequence_number m)), ucast (m_sequence_number m AND 0xFF)]
     @ m_data m"
  by (simp add: Encode_def Let_def)


lemma Encode_zeroed:
  "(Encode m)[2 := 0, 3 := 0] =
     [m_type m, m_code m, 0, 0,
      ucast (drop_bit 8 (m_identifier m)), ucast (m_identifier m AND 0xFF),
      ucast (drop_bit 8 (m_sequence_number m)), ucast (m_sequence_number m AND 0xFF)]
     @ m_data m"
  by (simp add: Encode_def Let_def)

lemma unat_bytes_of_word:
  "unat (ucast (drop_bit 8 w) :: u8) * 256 + unat (ucast (w AND 0xFF) :: u8) = unat (w :: u16)"
  using unat_be_word [of "ucast (drop_bit 8 w)" "ucast (w AND 0xFF)"]
  by (simp only: be_word_split)

lemma unat_bytes_of_word2:
  "unat (ucast (drop_bit 8 w AND 0xFF) :: u8) * 256 + unat (ucast (w AND 0xFF) :: u8)
     = unat (w :: u16)"
  using unat_be_word [of "ucast (drop_bit 8 w AND 0xFF)" "ucast (w AND 0xFF)"]
  by (simp only: be_word_split2)

lemma Decode_Encode:
  assumes "m_type m = 0 \<or> m_type m = 8"
  shows "Decode (Encode m) =
           Inr (m\<lparr>m_checksum := ComputeChecksum ((Encode m)[2 := 0, 3 := 0])\<rparr>)"
proof -
  have len: "\<not> length (Encode m) < 4" "8 \<le> length (Encode m)"
    by (simp_all add: Encode_layout)
  have nth: "Encode m ! 0 = m_type m" "Encode m ! 1 = m_code m"
    "be_word (Encode m ! 2) (Encode m ! 3) = ComputeChecksum ((Encode m)[2 := 0, 3 := 0])"
    "be_word (Encode m ! 4) (Encode m ! 5) = m_identifier m"
    "be_word (Encode m ! 6) (Encode m ! 7) = m_sequence_number m"
    "drop 8 (Encode m) = m_data m"
    by (simp_all only: Encode_zeroed) (simp_all add: Encode_layout be_word_split be_word_split2)
  show ?thesis
    using assms unfolding Decode_def by (simp only: len nth if_False if_True) auto
qed

section \<open>Encoded buffers and the 32-bit accumulator\<close>

lemma Encode_checksum_bytes:
  "unat (Encode m ! 2) * 256 + unat (Encode m ! 3)
     = unat (ComputeChecksum ((Encode m)[2 := 0, 3 := 0]))"
  by (simp only: Encode_zeroed) (simp add: Encode_layout unat_bytes_of_word2)

lemma sum_list_zeroed_less:
  assumes "length (m_data m) \<le> 131068"
  shows "sum_list (rfc1071_words ((Encode m)[2 := 0, 3 := 0])) < 4294967296"
proof -
  define rest where
    "rest = [ucast (drop_bit 8 (m_identifier m)), ucast (m_identifier m AND 0xFF),
             ucast (drop_bit 8 (m_sequence_number m)), ucast (m_sequence_number m AND 0xFF)]
            @ m_data m"
  have z: "(Encode m)[2 := 0, 3 := 0] = m_type m # m_code m # 0 # 0 # rest"
    by (simp add: Encode_zeroed rest_def)
  have "length rest \<le> 131072"
    using assms by (simp add: rest_def)
  then have "(length rest + 1) div 2 \<le> 65536"
    by simp
  then have "65535 * ((length rest + 1) div 2) \<le> 65535 * 65536"
    by (rule mult_le_mono2)
  with sum_list_rfc1071_words_le [of rest]
  have r: "sum_list (rfc1071_words rest) \<le> 4294901760"
    by simp
  have "unat (m_type m) * 256 + unat (m_code m) \<le> 65535"
    using unat_u8_less [of "m_type m"] unat_u8_less [of "m_code m"] by linarith
  with r show ?thesis
    by (simp add: z)
qed

lemma wsum_wrapping_message:
  "wsum ((Encode (IcmpMessage 0 1 0 0 (replicate (2 * n) 0xFF)))[2 := 0, 3 := 0])
     = 1 + of_nat n * 0xFFFF"
proof -
  have "wsum (replicate (2 * n) 0xFF @ []) = of_nat n * 0xFFFF + wsum []"
    by (rule wsum_replicate_FF)
  then show ?thesis
    by (simp add: Encode_zeroed IcmpMessage_def be_word_def)
qed

lemma rfc1071_sum_wrapping_message:
  "sum_list (rfc1071_words ((Encode (IcmpMessage 0 1 0 0 (replicate (2 * n) 0xFF)))[2 := 0, 3 := 0]))
     = 1 + n * 65535"
proof -
  have "rfc1071_words (replicate (2 * n) 0xFF @ []) = replicate n 65535 @ rfc1071_words []"
    by (rule rfc1071_words_replicate_FF)
  then show ?thesis
    by (simp add: Encode_zeroed IcmpMessage_def sum_list_replicate)
qed

lemma Encode_bound_tight:
  "length (m_data (IcmpMessage 0xFF 0xFF 0xFFFF 0xFFFF (replicate (2 * 65534) 0xFF @ [0xFF])))
     = 131069
   \<and> ComputeChecksum
        ((Encode (IcmpMessage 0xFF 0xFF 0xFFFF 0xFFFF (replicate (2 * 65534) 0xFF @ [0xFF])))
           [2 := 0, 3 := 0]) = 0x0100
   \<and> rfc1071_checksum
        ((Encode (IcmpMessage 0xFF 0xFF 0xFFFF 0xFFFF (replicate (2 * 65534) 0xFF @ [0xFF])))
           [2 := 0, 3 := 0]) = 0x00FF"
proof -
  have z: "(Encode (IcmpMessage 0xFF 0xFF 0xFFFF 0xFFFF (replicate (2 * 65534) 0xFF @ [0xFF])))
             [2 := 0, 3 := 0]
           = [0xFF, 0xFF, 0, 0, 0xFF, 0xFF, 0xFF, 0xFF] @ (replicate (2 * 65534) 0xFF @ [0xFF])"
    by (simp only: Encode_zeroed IcmpMessage_def icmp_message.simps) simp
  have l: "length (m_data (IcmpMessage 0xFF 0xFF 0xFFFF 0xFFFF (replicate (2 * 65534) 0xFF @ [0xFF])))
             = 131069"
    by (simp add: IcmpMessage_def)
  have "wsum ([0xFF, 0xFF, 0, 0, 0xFF, 0xFF, 0xFF, 0xFF] @ (replicate (2 * 65534) 0xFF @ [0xFF]))
          = 0xFFFF + (0 + (0xFFFF + (0xFFFF + wsum (replicate (2 * 65534) 0xFF @ [0xFF]))))"
    by (simp only: append_Cons append_Nil wsum.simps) (simp add: be_word_def)
  also have "wsum (replicate (2 * 65534) 0xFF @ [0xFF]) = of_nat 65534 * 0xFFFF + wsum [0xFF]"
    by (rule wsum_replicate_FF)
  also have "0xFFFF + (0 + (0xFFFF + (0xFFFF + (of_nat 65534 * 0xFFFF + wsum [0xFF])))) = (0xFEFF :: u32)"
    by simp
  finally have "ComputeChecksum ([0xFF, 0xFF, 0, 0, 0xFF, 0xFF, 0xFF, 0xFF]
                  @ (replicate (2 * 65534) 0xFF @ [0xFF])) = ucast (NOT (fold_carry 0xFEFF))"
    by (simp only: ComputeChecksum_def word_sum_wsum)
  also have "\<dots> = 0x0100"
    by (simp add: fold_carry.simps fold_step_def)
  finally have a: "ComputeChecksum ([0xFF, 0xFF, 0, 0, 0xFF, 0xFF, 0xFF, 0xFF]
                  @ (replicate (2 * 65534) 0xFF @ [0xFF])) = 0x0100" .
  have "rfc1071_words ([0xFF, 0xFF, 0, 0, 0xFF, 0xFF, 0xFF, 0xFF] @ (replicate (2 * 65534) 0xFF @ [0xFF]))
          = 65535 # 0 # 65535 # 65535 # rfc1071_words (replicate (2 * 65534) 0xFF @ [0xFF])"
    by (simp only: append_Cons append_Nil rfc1071_words.simps) simp
  also have "rfc1071_words (replicate (2 * 65534) 0xFF @ [0xFF])
               = replicate 65534 65535 @ rfc1071_words [0xFF]"
    by (rule rfc1071_words_replicate_FF)
  finally have "sum_list (rfc1071_words ([0xFF, 0xFF, 0, 0, 0xFF, 0xFF, 0xFF, 0xFF]
                  @ (replicate (2 * 65534) 0xFF @ [0xFF])))
                = 65535 + (0 + (65535 + (65535 + (65534 * 65535 + sum_list (rfc1071_words [0xFF])))))"
    by (simp only: sum_list.Cons sum_list_append sum_list_replicate of_nat_id)
  also have "\<dots> = 4295032575"
    by simp
  finally have "rfc1071_checksum ([0xFF, 0xFF, 0, 0, 0xFF, 0xFF, 0xFF, 0xFF]
                  @ (replicate (2 * 65534) 0xFF @ [0xFF])) = 65535 - rfc1071_fold 4295032575"
    by (simp only: rfc1071_checksum_def)
  also have "\<dots> = 0x00FF"
    by (simp add: rfc1071_fold.simps)
  finally have b: "rfc1071_checksum ([0xFF, 0xFF, 0, 0, 0xFF, 0xFF, 0xFF, 0xFF]
                  @ (replicate (2 * 65534) 0xFF @ [0xFF])) = 0x00FF" .
  from l a b show ?thesis
    by (simp only: z)
qed

section \<open>Evaluating the checksum on the buffers the claims name\<close>

lemma checksum_default_header: "ComputeChecksum [8, 0, 0, 0, 0, 0, 0, 0] = 0xF7FF"
  by (simp add: ComputeChecksum_def word_sum_wsum be_word_def fold_carry.simps)

lemma wsum_append_zero: "length buffer mod 2 = 1 \<Longrightarrow> wsum (buffer @ [0]) = wsum buffer"
  by (induction buffer rule: wsum.induct) (simp_all add: be_word_def)

section \<open>The claims\<close>

text \<open>
  C5: encoding the default-constructed message gives exactly the eight bytes
  \<open>[8, 0, csHi, csLo, 0, 0, 0, 0]\<close>, where \<open>csHi, csLo\<close> are the high and the low byte of
  the checksum of \<open>[8, 0, 0, 0, 0, 0, 0, 0]\<close>, which is \<open>0xF7FF\<close>.
\<close>

theorem C5_default_encode_shape:
  "Encode IcmpMessage_default =
     [8, 0, ucast (drop_bit 8 (ComputeChecksum [8, 0, 0, 0, 0, 0, 0, 0])),
      ucast (ComputeChecksum [8, 0, 0, 0, 0, 0, 0, 0]), 0, 0, 0, 0]
   \<and> ComputeChecksum [8, 0, 0, 0, 0, 0, 0, 0] = 0xF7FF
   \<and> Encode IcmpMessage_default = [8, 0, 0xF7, 0xFF, 0, 0, 0, 0]
   \<and> length (Encode IcmpMessage_default) = 8"
  by (simp add: Encode_def IcmpMessage_default_def checksum_default_header)

text \<open>
  C7: for a buffer of odd length the last byte enters the sum as the high byte of a word
  whose low byte is zero, so the checksum of the buffer with one zero byte appended is the
  checksum of the buffer.
\<close>

theorem C7_odd_length_padding:
  "length buffer mod 2 = 1 \<Longrightarrow>
     word_sum buffer = sum_loop buffer 0 0 + ucast (be_word (last buffer) 0)
     \<and> ComputeChecksum (buffer @ [0]) = ComputeChecksum buffer"
  by (simp add: ComputeChecksum_def word_sum_wsum wsum_append_zero)
     (simp add: word_sum_wsum [symmetric] word_sum_def add_odd_byte_def be_word_def)

theorem C7_odd_length_padding_witness:
  "length [1 :: u8] mod 2 = 1 \<and> ComputeChecksum [0x01, 0x00] = ComputeChecksum [0x01]"
  using C7_odd_length_padding [of "[1]"] by simp

text \<open>
  C9 (as amended): the carry-fold loop terminates for every accumulator value. While the
  loop condition holds, one fold strictly decreases the accumulator and does not increase
  the bits above the low 16 (they can stay the same: \<open>0x1FFFF\<close> folds to \<open>0x10000\<close>). For
  every 32-bit sum, hence for every input length, the body runs at most twice, and the
  loop ends with the bits above the low 16 all zero. \<open>fold_carry\<close>, and with it
  \<open>ComputeChecksum\<close>, is therefore defined on every input.
\<close>

theorem C9_fold_loop_terminates:
  "(drop_bit 16 s \<noteq> 0 \<longrightarrow>
      unat (fold_step s) < unat s \<and> drop_bit 16 (fold_step s) \<le> drop_bit 16 s)
   \<and> fold_carry_iterations s \<le> 2
   \<and> fold_carry s = (fold_step ^^ fold_carry_iterations s) s
   \<and> drop_bit 16 (fold_carry s) = 0"
  using fold_step_decreases [of s] fold_step_high_le [of s] fold_carry_iterations_le [of s]
    fold_carry_funpow [of s] fold_carry_exit [of s]
  by blast

theorem C9_fold_loop_terminates_witness:
  "drop_bit 16 (0x1FFFF :: u32) \<noteq> 0
   \<and> unat (fold_step 0x1FFFF) < unat (0x1FFFF :: u32)
   \<and> drop_bit 16 (fold_step 0x1FFFF) \<le> drop_bit 16 (0x1FFFF :: u32)
   \<and> fold_carry_iterations 0x1FFFF \<le> 2
   \<and> drop_bit 16 (fold_carry 0x1FFFF) = 0"
proof -
  have "drop_bit 16 (0x1FFFF :: u32) \<noteq> 0"
    by simp
  with C9_fold_loop_terminates [of "0x1FFFF"] show ?thesis
    by blast
qed

text \<open>
  The claim as worded fails: the buffer \<open>FF FF FF FF 00 01\<close> sums to \<open>0x1FFFF\<close>, the loop
  condition holds, and the fold leaves the bits above the low 16 at 1.
\<close>

theorem C9_high_bits_not_strictly_reduced:
  "word_sum [0xFF, 0xFF, 0xFF, 0xFF, 0x00, 0x01] = 0x1FFFF
   \<and> drop_bit 16 (0x1FFFF :: u32) \<noteq> 0
   \<and> \<not> drop_bit 16 (fold_step 0x1FFFF) < drop_bit 16 (0x1FFFF :: u32)"
  by (simp add: word_sum_wsum be_word_def fold_step_def)

text \<open>
  C6 (as amended): \<open>ComputeChecksum\<close> returns a 16-bit value for every buffer, the empty
  one included. For every buffer of at most 131074 bytes, where the 32-bit accumulator
  cannot wrap around, that value is the Internet checksum as section 4.1 of the
  specification words it. In particular the checksum of \<open>[8, 0, 0, 0]\<close>, whose words are
  \<open>0x0800\<close> and \<open>0x0000\<close>, is \<open>0xF7FF\<close>, the complement of their sum.
\<close>

theorem C6_checksum_total_and_rfc1071:
  "(length buffer \<le> 131074 \<longrightarrow> unat (ComputeChecksum buffer) = rfc1071_checksum buffer)
   \<and> unat (ComputeChecksum buffer) < 2 ^ 16
   \<and> ComputeChecksum [] = 0xFFFF
   \<and> rfc1071_words [8, 0, 0, 0] = [0x0800, 0x0000]
   \<and> ComputeChecksum [8, 0, 0, 0] = 0xF7FF
   \<and> (0xF7FF :: u16) = NOT (0x0800 + 0x0000)"
proof -
  have "length buffer \<le> 131074 \<longrightarrow> unat (ComputeChecksum buffer) = rfc1071_checksum buffer"
    by (simp add: checksum_refines sum_list_rfc1071_words_less)
  moreover have "unat (ComputeChecksum buffer) < 2 ^ 16"
    using unsigned_less [of "ComputeChecksum buffer", where 'a = nat] by simp
  moreover have "ComputeChecksum [] = 0xFFFF"
    by (simp only: ComputeChecksum_def word_sum_wsum wsum.simps checksum_of_zero_sum)
  moreover have "rfc1071_words [8, 0, 0, 0] = [0x0800, 0x0000]"
    by simp
  moreover have "ComputeChecksum [8, 0, 0, 0] = 0xF7FF"
    by (simp add: ComputeChecksum_def word_sum_wsum be_word_def fold_carry.simps)
  moreover have "(0xF7FF :: u16) = NOT (0x0800 + 0x0000)"
    by simp
  ultimately show ?thesis
    by blast
qed

theorem C6_checksum_total_and_rfc1071_witness:
  "length [8, 0, 0, 0 :: u8] \<le> 131074
   \<and> unat (ComputeChecksum [8, 0, 0, 0]) = rfc1071_checksum [8, 0, 0, 0]
   \<and> rfc1071_checksum [8, 0, 0, 0] = 0xF7FF"
proof -
  have "length [8, 0, 0, 0 :: u8] \<le> 131074"
    by simp
  moreover from this C6_checksum_total_and_rfc1071 [of "[8, 0, 0, 0]"]
  have "unat (ComputeChecksum [8, 0, 0, 0]) = rfc1071_checksum [8, 0, 0, 0]"
    by blast
  moreover have "rfc1071_checksum [8, 0, 0, 0] = 0xF7FF"
    by (simp add: rfc1071_checksum_def rfc1071_fold.simps)
  ultimately show ?thesis
    by blast
qed

text \<open>
  The claim as worded fails on long buffers: 131074 bytes \<open>0xFF\<close> followed by \<open>00 01\<close> are
  65538 words whose sum is \<open>2 ^ 32\<close>. The 32-bit accumulator wraps to 0 and the code
  returns \<open>0xFFFF\<close>, while the Internet checksum of that buffer is \<open>0xFFFE\<close>.
\<close>

theorem C6_accumulator_wraps:
  "ComputeChecksum (replicate (2 * 65537) 0xFF @ [0x00, 0x01]) = 0xFFFF
   \<and> rfc1071_checksum (replicate (2 * 65537) 0xFF @ [0x00, 0x01]) = 0xFFFE"
proof -
  have "of_nat 65537 * 0xFFFF + wsum [0x00, 0x01] = (0 :: u32)"
    by (simp add: be_word_def)
  then have "wsum (replicate (2 * 65537) 0xFF @ [0x00, 0x01]) = 0"
    by (simp only: wsum_replicate_FF)
  then have a: "ComputeChecksum (replicate (2 * 65537) 0xFF @ [0x00, 0x01]) = 0xFFFF"
    by (simp only: ComputeChecksum_def word_sum_wsum checksum_of_zero_sum)
  have "65537 * 65535 + sum_list (rfc1071_words [0x00, 0x01]) = (4294967296 :: nat)"
    by simp
  then have "sum_list (rfc1071_words (replicate (2 * 65537) 0xFF @ [0x00, 0x01])) = 4294967296"
    by (simp only: rfc1071_words_replicate_FF sum_list_append sum_list_replicate of_nat_id)
  moreover have "65535 - rfc1071_fold 4294967296 = 0xFFFE"
    by (simp add: rfc1071_fold.simps)
  ultimately have b: "rfc1071_checksum (replicate (2 * 65537) 0xFF @ [0x00, 0x01]) = 0xFFFE"
    by (simp only: rfc1071_checksum_def)
  from a b show ?thesis ..
qed

text \<open>
  C1: for every message whose type is 0 or 8, decoding the encoded message succeeds, and
  the decoded message has the same type, code, identifier, sequence number and payload
  (its checksum field is the one \<open>Encode\<close> computed, and is not compared).
\<close>

theorem C1_round_trip:
  "m_type m = 0 \<or> m_type m = 8 \<Longrightarrow>
     \<exists>m'. Decode (Encode m) = Inr m'
       \<and> type m' = type m \<and> code m' = code m \<and> identifier_acc m' = identifier_acc m
       \<and> sequence_number m' = sequence_number m \<and> data m' = data m"
  by (simp add: Decode_Encode type_def code_def identifier_acc_def sequence_number_def data_def)

theorem C1_round_trip_witness:
  "(m_type (IcmpMessage 8 0 0x1234 7 [1, 2, 3]) = 0
      \<or> m_type (IcmpMessage 8 0 0x1234 7 [1, 2, 3]) = 8)
   \<and> (\<exists>m'. Decode (Encode (IcmpMessage 8 0 0x1234 7 [1, 2, 3])) = Inr m'
       \<and> type m' = 8 \<and> code m' = 0 \<and> identifier_acc m' = 0x1234
       \<and> sequence_number m' = 7 \<and> data m' = [1, 2, 3])"
proof -
  have h: "m_type (IcmpMessage 8 0 0x1234 7 [1, 2, 3]) = 0
             \<or> m_type (IcmpMessage 8 0 0x1234 7 [1, 2, 3]) = 8"
    by (simp add: IcmpMessage_def)
  from C1_round_trip [OF h] show ?thesis
    by (simp add: IcmpMessage_def type_def code_def identifier_acc_def sequence_number_def data_def)
qed

text \<open>
  C2: \<open>Decode\<close> fails exactly when the buffer is shorter than 4 bytes or has a first byte
  that is neither 0 nor 8. There is one failure kind, \<open>MalformedMessage\<close>, whatever the
  cause, and the one-byte buffer \<open>[99]\<close> is rejected.
\<close>

theorem C2_decode_failure:
  "(Decode buffer = Inl MalformedMessage \<longleftrightarrow>
      length buffer < 4 \<or> (\<exists>t rest. buffer = t # rest \<and> t \<noteq> 0 \<and> t \<noteq> 8))
   \<and> (\<forall>e. Decode buffer = Inl e \<longrightarrow> e = MalformedMessage)
   \<and> Decode [99] = Inl MalformedMessage"
proof -
  have "Decode buffer = Inl MalformedMessage \<longleftrightarrow>
      length buffer < 4 \<or> (\<exists>t rest. buffer = t # rest \<and> t \<noteq> 0 \<and> t \<noteq> 8)"
    by (cases buffer) (auto simp: Decode_def)
  moreover have "\<forall>e. Decode buffer = Inl e \<longrightarrow> e = MalformedMessage"
    by (auto intro: decode_error.exhaust)
  moreover have "Decode [99] = Inl MalformedMessage"
    by (simp add: Decode_def)
  ultimately show ?thesis
    by blast
qed

theorem C2_decode_failure_witness:
  "length [99 :: u8] < 4 \<and> Decode [99] = Inl MalformedMessage
   \<and> \<not> length [7 :: u8, 0, 0, 0, 0, 0, 0, 0] < 4
   \<and> Decode [7, 0, 0, 0, 0, 0, 0, 0] = Inl MalformedMessage
   \<and> Decode [0, 0, 0, 0] \<noteq> Inl MalformedMessage"
  using C2_decode_failure [of "[99]"] C2_decode_failure [of "[7, 0, 0, 0, 0, 0, 0, 0]"]
    C2_decode_failure [of "[0, 0, 0, 0]"]
  by simp

text \<open>
  C3: \<open>Decode\<close> accepts every buffer of at least 4 bytes whose type byte is 0 or 8, taking
  type and code from bytes 0 and 1; when the buffer is shorter than 8 bytes, identifier
  and sequence number are 0 and the payload is empty. \<open>Decode [8, 0, 0, 0]\<close> is the message
  with type 8, code 0, identifier 0, sequence number 0 and no payload.
\<close>

theorem C3_decode_minimum_length:
  "(4 \<le> length buffer \<and> (buffer ! 0 = 0 \<or> buffer ! 0 = 8) \<longrightarrow>
      (\<exists>m. Decode buffer = Inr m \<and> type m = buffer ! 0 \<and> code m = buffer ! 1
         \<and> (length buffer < 8 \<longrightarrow>
               identifier_acc m = 0 \<and> sequence_number m = 0 \<and> data m = [])))
   \<and> Decode [8, 0, 0, 0] =
        Inr \<lparr>m_type = 8, m_code = 0, m_checksum = 0, m_identifier = 0,
             m_sequence_number = 0, m_data = []\<rparr>"
  by (auto simp: Decode_def be_word_zero type_def code_def identifier_acc_def sequence_number_def
      data_def)

theorem C3_decode_minimum_length_witness:
  "4 \<le> length [0 :: u8, 1, 2, 3, 4, 5] \<and> length [0 :: u8, 1, 2, 3, 4, 5] < 8
   \<and> (\<exists>m. Decode [0, 1, 2, 3, 4, 5] = Inr m \<and> type m = 0 \<and> code m = 1
         \<and> identifier_acc m = 0 \<and> sequence_number m = 0 \<and> data m = [])"
  using C3_decode_minimum_length [of "[0, 1, 2, 3, 4, 5]"] by simp

text \<open>
  C4 (as amended): \<open>Encode\<close> returns, for every message, \<open>8 + len(payload)\<close> bytes: the
  type, the code, the checksum with its high byte first, the identifier and the sequence
  number big-endian, then the payload unchanged. The checksum is the one \<open>ComputeChecksum\<close>
  gives for the same buffer with bytes 2 and 3 zero; for every payload of at most 131068
  bytes, where the 32-bit accumulator cannot wrap around, that is the Internet checksum
  as the specification words it. The two index writes of \<open>Encode\<close> are inside the buffer,
  so there is no failing path.
\<close>

theorem C4_encode_layout:
  "length (Encode m) = 8 + length (m_data m)
   \<and> Encode m ! 0 = m_type m
   \<and> Encode m ! 1 = m_code m
   \<and> unat (Encode m ! 2) * 256 + unat (Encode m ! 3)
       = unat (ComputeChecksum ((Encode m)[2 := 0, 3 := 0]))
   \<and> (length (m_data m) \<le> 131068 \<longrightarrow>
        unat (Encode m ! 2) * 256 + unat (Encode m ! 3)
          = rfc1071_checksum ((Encode m)[2 := 0, 3 := 0]))
   \<and> unat (Encode m ! 4) * 256 + unat (Encode m ! 5) = unat (m_identifier m)
   \<and> unat (Encode m ! 6) * 256 + unat (Encode m ! 7) = unat (m_sequence_number m)
   \<and> drop 8 (Encode m) = m_data m"
proof -
  have len: "length (Encode m) = 8 + length (m_data m)"
    by (simp add: Encode_layout)
  have "unat (Encode m ! 2) * 256 + unat (Encode m ! 3)
          = rfc1071_checksum ((Encode m)[2 := 0, 3 := 0])"
    if "length (m_data m) \<le> 131068"
    using sum_list_zeroed_less [OF that]
    by (simp only: Encode_checksum_bytes checksum_refines)
  moreover have "unat (Encode m ! 4) * 256 + unat (Encode m ! 5) = unat (m_identifier m)"
    by (simp add: Encode_layout unat_bytes_of_word)
  moreover have "unat (Encode m ! 6) * 256 + unat (Encode m ! 7) = unat (m_sequence_number m)"
    by (simp add: Encode_layout unat_bytes_of_word)
  moreover have "Encode m ! 0 = m_type m" and "Encode m ! 1 = m_code m"
    and "drop 8 (Encode m) = m_data m"
    by (simp_all add: Encode_layout)
  ultimately show ?thesis
    using Encode_checksum_bytes [of m] len by blast
qed

theorem C4_encode_layout_witness:
  "length (m_data (IcmpMessage 8 0 0x1234 0xABCD [0xDE, 0xAD])) \<le> 131068
   \<and> Encode (IcmpMessage 8 0 0x1234 0xABCD [0xDE, 0xAD])
       = [8, 0, 0x5B, 0x50, 0x12, 0x34, 0xAB, 0xCD, 0xDE, 0xAD]
   \<and> unat (0x5B :: u8) * 256 + unat (0x50 :: u8)
       = rfc1071_checksum [8, 0, 0, 0, 0x12, 0x34, 0xAB, 0xCD, 0xDE, 0xAD]"
proof -
  have e: "Encode (IcmpMessage 8 0 0x1234 0xABCD [0xDE, 0xAD])
             = [8, 0, 0x5B, 0x50, 0x12, 0x34, 0xAB, 0xCD, 0xDE, 0xAD]"
    by (simp add: Encode_def IcmpMessage_def ComputeChecksum_def word_sum_wsum be_word_def
        fold_carry.simps fold_step_def)
  have h: "length (m_data (IcmpMessage 8 0 0x1234 0xABCD [0xDE, 0xAD])) \<le> 131068"
    by (simp add: IcmpMessage_def)
  from C4_encode_layout [of "IcmpMessage 8 0 0x1234 0xABCD [0xDE, 0xAD]"] h
  have "unat (Encode (IcmpMessage 8 0 0x1234 0xABCD [0xDE, 0xAD]) ! 2) * 256
          + unat (Encode (IcmpMessage 8 0 0x1234 0xABCD [0xDE, 0xAD]) ! 3)
        = rfc1071_checksum ((Encode (IcmpMessage 8 0 0x1234 0xABCD [0xDE, 0xAD]))[2 := 0, 3 := 0])"
    by blast
  then have "unat (0x5B :: u8) * 256 + unat (0x50 :: u8)
       = rfc1071_checksum [8, 0, 0, 0, 0x12, 0x34, 0xAB, 0xCD, 0xDE, 0xAD]"
    by (simp add: e)
  with e h show ?thesis
    by blast
qed

text \<open>
  The claim as worded fails on long payloads: for type 0, code 1, identifier 0, sequence
  number 0 and a payload of 131074 bytes \<open>0xFF\<close>, the words of the buffer with a zero
  checksum field sum to \<open>2 ^ 32\<close>. The accumulator wraps to 0, bytes 2 and 3 of the
  encoded buffer hold \<open>0xFFFF\<close>, and the Internet checksum of that buffer is \<open>0xFFFE\<close>.
\<close>

theorem C4_stored_checksum_wraps:
  "unat (Encode (IcmpMessage 0 1 0 0 (replicate (2 * 65537) 0xFF)) ! 2) * 256
     + unat (Encode (IcmpMessage 0 1 0 0 (replicate (2 * 65537) 0xFF)) ! 3) = 0xFFFF
   \<and> rfc1071_checksum ((Encode (IcmpMessage 0 1 0 0 (replicate (2 * 65537) 0xFF)))[2 := 0, 3 := 0])
       = 0xFFFE"
proof -
  have "1 + of_nat 65537 * 0xFFFF = (0 :: u32)"
    by simp
  then have "wsum ((Encode (IcmpMessage 0 1 0 0 (replicate (2 * 65537) 0xFF)))[2 := 0, 3 := 0]) = 0"
    by (simp only: wsum_wrapping_message)
  then have "ComputeChecksum ((Encode (IcmpMessage 0 1 0 0 (replicate (2 * 65537) 0xFF)))[2 := 0, 3 := 0])
               = 0xFFFF"
    by (simp only: ComputeChecksum_def word_sum_wsum checksum_of_zero_sum)
  moreover have "unat (0xFFFF :: u16) = 0xFFFF"
    by simp
  ultimately have a: "unat (Encode (IcmpMessage 0 1 0 0 (replicate (2 * 65537) 0xFF)) ! 2) * 256
     + unat (Encode (IcmpMessage 0 1 0 0 (replicate (2 * 65537) 0xFF)) ! 3) = 0xFFFF"
    by (simp only: Encode_checksum_bytes)
  have "1 + 65537 * 65535 = (4294967296 :: nat)"
    by simp
  then have "sum_list (rfc1071_words
               ((Encode (IcmpMessage 0 1 0 0 (replicate (2 * 65537) 0xFF)))[2 := 0, 3 := 0]))
             = 4294967296"
    by (simp only: rfc1071_sum_wrapping_message)
  moreover have "65535 - rfc1071_fold 4294967296 = 0xFFFE"
    by (simp add: rfc1071_fold.simps)
  ultimately have b: "rfc1071_checksum
       ((Encode (IcmpMessage 0 1 0 0 (replicate (2 * 65537) 0xFF)))[2 := 0, 3 := 0]) = 0xFFFE"
    by (simp only: rfc1071_checksum_def)
  from a b show ?thesis ..
qed



text \<open>
  C10 (as amended): the class has a read-only accessor for each of the fields type, code,
  identifier, sequence number and payload, and for a message built by the parameterized
  constructor each of them returns the constructor's argument. There is no accessor for
  the checksum field.
\<close>

theorem C10_accessors_return_constructed_values:
  "type (IcmpMessage ty co ident seq payload) = ty
   \<and> code (IcmpMessage ty co ident seq payload) = co
   \<and> identifier_acc (IcmpMessage ty co ident seq payload) = ident
   \<and> sequence_number (IcmpMessage ty co ident seq payload) = seq
   \<and> data (IcmpMessage ty co ident seq payload) = payload
   \<and> map (\<lambda>a. a (IcmpMessage ty co ident seq payload)) accessors
       = [U8 ty, U8 co, U16 ident, U16 seq, Bytes payload]"
  by (simp add: IcmpMessage_def accessors_def type_def code_def identifier_acc_def
      sequence_number_def data_def)

text \<open>
  The claim as worded fails for the checksum: two messages that differ in their checksum
  field give the same result under every accessor of the class, so none of them reads it.
\<close>

theorem C10_no_checksum_accessor:
  "m_checksum (IcmpMessage_default\<lparr>m_checksum := 1\<rparr>) \<noteq> m_checksum IcmpMessage_default
   \<and> map (\<lambda>a. a (IcmpMessage_default\<lparr>m_checksum := 1\<rparr>)) accessors
       = map (\<lambda>a. a IcmpMessage_default) accessors"
  by (simp add: IcmpMessage_default_def accessors_def type_def code_def identifier_acc_def
      sequence_number_def data_def)

end
